theory Spec2Isabelle
  imports Main "HOL-Library.Word"
begin

section \<open>Strings as the source uses them\<close>

text \<open>
  JavaScript strings are modelled as \<^typ>\<open>string\<close>; the bytes of a \<open>Uint8Array\<close> as
  \<^typ>\<open>8 word\<close>. The string primitives of the source are written out below with the
  results JavaScript gives on the corner cases (empty string, separator absent,
  negative index).
\<close>

type_synonym byte = "8 word"

text \<open>\<open>s.split(c)\<close> for a one-character separator: never the empty list,
  \<open>"".split(c)\<close> is \<open>[""]\<close>.\<close>

fun split_str :: "char \<Rightarrow> string \<Rightarrow> string list" where
  "split_str c [] = [[]]"
| "split_str c (x # xs) =
     (if x = c then [] # split_str c xs
      else (case split_str c xs of
              [] \<Rightarrow> [[x]]
            | p # ps \<Rightarrow> (x # p) # ps))"

text \<open>\<open>parts.join(c)\<close>.\<close>

fun join_str :: "char \<Rightarrow> string list \<Rightarrow> string" where
  "join_str c [] = []"
| "join_str c [p] = p"
| "join_str c (p # q # ps) = p @ c # join_str c (q # ps)"

text \<open>\<open>s.lastIndexOf(c)\<close>: the index of the last occurrence, \<open>-1\<close> when there is none.\<close>

fun lastIndexOf_from :: "char \<Rightarrow> string \<Rightarrow> int \<Rightarrow> int \<Rightarrow> int" where
  "lastIndexOf_from c [] i found = found"
| "lastIndexOf_from c (x # xs) i found =
     lastIndexOf_from c xs (i + 1) (if x = c then i else found)"

definition lastIndexOf :: "string \<Rightarrow> char \<Rightarrow> int" where
  "lastIndexOf s c = lastIndexOf_from c s 0 (- 1)"

text \<open>\<open>s.substring(0, k)\<close>: a negative \<open>k\<close> counts as 0, a \<open>k\<close> beyond the end as the
  length.\<close>

definition substring0 :: "string \<Rightarrow> int \<Rightarrow> string" where
  "substring0 s k = take (nat k) s"

text \<open>\<open>s.startsWith(p)\<close>.\<close>

definition startsWith :: "string \<Rightarrow> string \<Rightarrow> bool" where
  "startsWith s p = (take (length p) s = p)"

text \<open>\<open>s.toLowerCase()\<close> on the ASCII range: \<open>A\<close>..\<open>Z\<close> move to \<open>a\<close>..\<open>z\<close>, every other
  character stays.\<close>

definition toLowerChar :: "char \<Rightarrow> char" where
  "toLowerChar c =
     (let n = (of_char c :: nat) in if 65 \<le> n \<and> n \<le> 90 then char_of (n + 32) else c)"

definition toLowerCase :: "string \<Rightarrow> string" where
  "toLowerCase s = map toLowerChar s"

text \<open>\<open>b.toString(16).toUpperCase()\<close> for a byte: one digit below 16, two digits from 16
  on. There is no padding to two digits.\<close>

definition hexDigit :: "nat \<Rightarrow> char" where
  "hexDigit n = ''0123456789ABCDEF'' ! n"

definition toHexUpper :: "byte \<Rightarrow> string" where
  "toHexUpper b =
     (let n = unat b in
      if n < 16 then [hexDigit n] else [hexDigit (n div 16), hexDigit (n mod 16)])"

section \<open>Signature detection (\<open>utils/fileSignatures.ts\<close>)\<close>

datatype mime = Png | Jpg | Gif | Webp | Unknown

text \<open>The detected type is a string of the source; it is spliced into file names and
  compared with extensions as that string.\<close>

fun mime_str :: "mime \<Rightarrow> string" where
  "mime_str Png = ''png''"
| "mime_str Jpg = ''jpg''"
| "mime_str Gif = ''gif''"
| "mime_str Webp = ''webp''"
| "mime_str Unknown = ''unknown''"

text \<open>The body of \<open>reader.onloadend\<close> once a result is there: \<open>bytes\<close> is the
  \<open>ArrayBuffer\<close> read from the slice.\<close>

definition header_of :: "byte list \<Rightarrow> string" where
  "header_of bytes = concat (map toHexUpper (take 4 bytes))"

definition detect :: "byte list \<Rightarrow> mime" where
  "detect bytes =
     (let header = header_of bytes in
      if startsWith header ''89504E47'' then Png
      else if startsWith header ''FFD8FF'' then Jpg
      else if startsWith header ''47494638'' then Gif
      else if 12 \<le> length bytes
              \<and> concat (map toHexUpper (take 4 bytes)) = ''52494646''
              \<and> concat (map toHexUpper (take 4 (drop 8 bytes))) = ''57454250''
      then Webp
      else Unknown)"

text \<open>A browser \<open>File\<close>: its name, its path relative to the picked folder (empty when
  the file was not picked through a folder), its bytes, and whether a \<open>FileReader\<close>
  succeeds on it.\<close>

record File =
  name :: string
  webkitRelativePath :: string
  content :: "byte list"
  readable :: bool

text \<open>\<open>reader.readAsArrayBuffer(file.slice(0, 12))\<close>: \<open>None\<close> is the read error, after
  which \<open>e.target.result\<close> is null.\<close>

definition readAsArrayBuffer :: "File \<Rightarrow> byte list option" where
  "readAsArrayBuffer f = (if readable f then Some (take 12 (content f)) else None)"

definition detectMimeType :: "File \<Rightarrow> mime" where
  "detectMimeType f =
     (case readAsArrayBuffer f of
        None \<Rightarrow> Unknown
      | Some bytes \<Rightarrow> detect bytes)"

definition getExtension :: "string \<Rightarrow> string" where
  "getExtension filename =
     (let parts = split_str CHR ''.'' filename in
      if length parts = 1 then [] else toLowerCase (last parts))"

definition shouldSkipFile :: "string \<Rightarrow> bool" where
  "shouldSkipFile filename =
     (startsWith filename ''.'' \<or> startsWith filename ''__MACOSX'')"

section \<open>The batch pipeline (\<open>App.tsx\<close>, \<open>types.ts\<close>)\<close>

datatype ProcessState = IDLE | READING | PROCESSING | ZIPPING | COMPLETED | ERROR

datatype status = Fixed | Unchanged | Skipped

record ProcessedFile =
  originalName :: string
  newName :: string
  originalPath :: string
  detectedType :: mime
  status :: status
  blob :: File

record ProcessingStats =
  total :: nat
  fixed :: nat
  processed :: nat
  startTime :: nat

text \<open>The component's state (the \<open>useState\<close> hooks of \<open>App\<close>).\<close>

record App =
  state :: ProcessState
  stats :: ProcessingStats
  currentFile :: string
  logs :: "ProcessedFile list"
  zipBlob :: "byte list option"
  errorMsg :: string

text \<open>A run of \<open>startProcessing\<close> adds its locals to the component's state:
  \<open>processedFiles\<close>, the calls \<open>zip.file(path, file)\<close> made so far in call order
  (\<open>zipFiles\<close>), and \<open>fixedCount\<close>.\<close>

record Run = App +
  processedFiles :: "ProcessedFile list"
  zipFiles :: "(string \<times> File) list"
  fixedCount :: nat

text \<open>\<open>file.webkitRelativePath || file.name\<close>: the empty string is falsy.\<close>

definition relativePath :: "File \<Rightarrow> string" where
  "relativePath f = (if webkitRelativePath f = [] then name f else webkitRelativePath f)"

text \<open>\<open>file.name.substring(0, file.name.lastIndexOf('.')) || file.name\<close>.\<close>

definition nameWithoutExt :: "string \<Rightarrow> string" where
  "nameWithoutExt fileName =
     (let s = substring0 fileName (lastIndexOf fileName CHR ''.'') in
      if s = [] then fileName else s)"

text \<open>The rename decision of the loop body (lines 58 to 93 of \<open>App.tsx\<close>), as a function
  of \<open>file.name\<close>, \<open>relativePath\<close> and \<open>realType\<close>; it returns \<open>newName\<close>, \<open>finalPath\<close>
  and \<open>status\<close>.\<close>

definition decide :: "string \<Rightarrow> string \<Rightarrow> mime \<Rightarrow> string \<times> string \<times> status" where
  "decide fileName relPath realType =
     (let currentExt = getExtension fileName in
      if realType \<noteq> Unknown then
        (let isMatch = (currentExt = mime_str realType);
             isJpgMatch = ((currentExt = ''jpeg'' \<and> realType = Jpg)
                           \<or> (currentExt = ''jpg'' \<and> realType = Jpg))
         in if \<not> isMatch \<and> \<not> isJpgMatch then
              (let newName = nameWithoutExt fileName @ ''.'' @ mime_str realType;
                   pathParts = split_str CHR ''/'' relPath;
                   fileNameIdx = length pathParts - 1
               in (newName, join_str CHR ''/'' (pathParts[fileNameIdx := newName]), Fixed))
            else (fileName, relPath, Unchanged))
      else (fileName, relPath, Unchanged))"

text \<open>One iteration of the \<open>for\<close> loop, at index \<open>i\<close>.\<close>

definition processFile :: "File list \<Rightarrow> nat \<Rightarrow> Run \<Rightarrow> Run" where
  "processFile files i r =
     (let file = files ! i;
          relPath = relativePath file;
          realType = detectMimeType file;
          (newName', finalPath, status') = decide (name file) relPath realType;
          fixedCount' = (if status' = Fixed then fixedCount r + 1 else fixedCount r);
          logEntry = \<lparr>originalName = name file, newName = newName',
                      originalPath = relPath, detectedType = realType,
                      status = status', blob = file\<rparr>
      in r\<lparr>currentFile := relPath,
           zipFiles := zipFiles r @ [(finalPath, file)],
           processedFiles := processedFiles r @ [logEntry],
           fixedCount := fixedCount',
           logs := take 500 (logEntry # logs r),
           stats := (stats r)\<lparr>processed := i + 1, fixed := fixedCount'\<rparr>\<rparr>)"

text \<open>\<open>for (let i = 0; i < files.length; i++)\<close>, entered at index \<open>i\<close>.\<close>

function loop :: "File list \<Rightarrow> nat \<Rightarrow> Run \<Rightarrow> Run" where
  "loop files i r = (if i < length files then loop files (i + 1) (processFile files i r) else r)"
  by pat_completeness auto
termination
  by (relation "measure (\<lambda>(files, i, r). length files - i)") auto

declare loop.simps [simp del]

text \<open>The state a run starts its loop from: the four resets and the fresh locals.
  \<open>now\<close> is \<open>Date.now()\<close>.\<close>

definition initRun :: "nat \<Rightarrow> App \<Rightarrow> File list \<Rightarrow> Run" where
  "initRun now app files =
     \<lparr>state = PROCESSING,
      stats = \<lparr>total = length files, fixed = 0, processed = 0, startTime = now\<rparr>,
      currentFile = currentFile app,
      logs = [],
      zipBlob = None,
      errorMsg = [],
      processedFiles = [],
      zipFiles = [],
      fixedCount = 0\<rparr>"

text \<open>\<open>startProcessing\<close>. The archive library is outside the repository:
  \<open>generateAsync\<close> stands for \<open>zip.generateAsync\<close> applied to the entries added, \<open>None\<close>
  when it rejects, which is what the \<open>catch\<close> block handles.\<close>

definition startProcessing ::
  "((string \<times> File) list \<Rightarrow> byte list option) \<Rightarrow> nat \<Rightarrow> App \<Rightarrow> File list \<Rightarrow> Run" where
  "startProcessing generateAsync now app files =
     (let r = loop files 0 (initRun now app files) in
      case generateAsync (zipFiles r) of
        Some blob' \<Rightarrow> r\<lparr>state := COMPLETED, zipBlob := Some blob'\<rparr>
      | None \<Rightarrow>
          r\<lparr>state := ERROR,
            errorMsg := ''An error occurred while processing files. Please try again.''\<rparr>)"

text \<open>\<open>handleFolderSelect\<close>: \<open>Inl\<close> is the component's state after an early return,
  \<open>Inr\<close> the run started on the files that pass the filter.\<close>

definition handleFolderSelect ::
  "((string \<times> File) list \<Rightarrow> byte list option) \<Rightarrow> nat \<Rightarrow> App \<Rightarrow> File list \<Rightarrow> App + Run" where
  "handleFolderSelect generateAsync now app files =
     (if files = [] then Inl app
      else
        (let validFiles = filter (\<lambda>f. \<not> shouldSkipFile (name f)) files in
         if validFiles = [] then
           Inl (app\<lparr>errorMsg := ''No valid files found in the selected folder.''\<rparr>)
         else Inr (startProcessing generateAsync now app validFiles)))"

text \<open>The run after its first \<open>k\<close> iterations.\<close>

primrec after_steps :: "File list \<Rightarrow> nat \<Rightarrow> Run \<Rightarrow> Run" where
  "after_steps files 0 r = r"
| "after_steps files (Suc k) r = processFile files k (after_steps files k r)"

text \<open>What one file contributes: its log entry and its path in the archive.\<close>

definition outcome_of :: "File \<Rightarrow> ProcessedFile" where
  "outcome_of f =
     (let d = decide (name f) (relativePath f) (detectMimeType f) in
      \<lparr>originalName = name f, newName = fst d, originalPath = relativePath f,
       detectedType = detectMimeType f, status = snd (snd d), blob = f\<rparr>)"

definition finalPath_of :: "File \<Rightarrow> string" where
  "finalPath_of f = fst (snd (decide (name f) (relativePath f) (detectMimeType f)))"

text \<open>The run as the presentation layer can observe it after \<open>k\<close> files: the fresh
  state followed by the first \<open>k\<close> iterations.\<close>

definition progress :: "nat \<Rightarrow> App \<Rightarrow> File list \<Rightarrow> nat \<Rightarrow> Run" where
  "progress now app files k = after_steps files k (initRun now app files)"

section \<open>The specification's wording, for comparison\<close>

text \<open>The detection rules in the specification's words: the signatures compared byte
  by byte, in the order PNG, JPEG, GIF, WEBP.\<close>

definition detect_spec :: "byte list \<Rightarrow> mime" where
  "detect_spec bytes =
     (if take 4 bytes = [0x89, 0x50, 0x4E, 0x47] then Png
      else if take 3 bytes = [0xFF, 0xD8, 0xFF] then Jpg
      else if take 4 bytes = [0x47, 0x49, 0x46, 0x38] then Gif
      else if 12 \<le> length bytes
              \<and> take 4 bytes = [0x52, 0x49, 0x46, 0x46]
              \<and> take 4 (drop 8 bytes) = [0x57, 0x45, 0x42, 0x50]
      then Webp
      else Unknown)"

text \<open>The part of a string after the last \<open>c\<close> (the whole string when there is no
  \<open>c\<close>) and the part up to and including the last \<open>c\<close> (empty when there is none).\<close>

definition after_last :: "char \<Rightarrow> string \<Rightarrow> string" where
  "after_last c s = rev (takeWhile (\<lambda>x. x \<noteq> c) (rev s))"

definition upto_last :: "char \<Rightarrow> string \<Rightarrow> string" where
  "upto_last c s = rev (dropWhile (\<lambda>x. x \<noteq> c) (rev s))"

text \<open>The final path segment and the directory prefix in front of it (with its
  closing separator).\<close>

definition last_segment :: "string \<Rightarrow> string" where
  "last_segment p = after_last CHR ''/'' p"

definition dir_prefix :: "string \<Rightarrow> string" where
  "dir_prefix p = upto_last CHR ''/'' p"

text \<open>"The portion of the final path segment before the last '.' (or the whole segment
  if no '.')".\<close>

definition stem_spec :: "string \<Rightarrow> string" where
  "stem_spec seg =
     (if CHR ''.'' \<in> set seg then butlast (upto_last CHR ''.'' seg) else seg)"

text \<open>"Substring after the last '.' in the final path segment, lower-cased; absence of
  '.' yields an empty extension".\<close>

definition ext_spec :: "string \<Rightarrow> string" where
  "ext_spec p =
     (let seg = last_segment p in
      if CHR ''.'' \<in> set seg then toLowerCase (after_last CHR ''.'' seg) else [])"

text \<open>A path without the extension of its last segment.\<close>

definition strip_ext :: "string \<Rightarrow> string" where
  "strip_ext p = dir_prefix p @ stem_spec (last_segment p)"

section \<open>A sample batch\<close>

text \<open>The end-to-end scenario of the specification: a real PNG named \<open>a.png\<close>, a GIF
  named \<open>b.jpg\<close>, unrecognised bytes named \<open>c.dat\<close>; and a file whose read fails.\<close>

definition example_png :: File where
  "example_png = \<lparr>name = ''a.png'', webkitRelativePath = ''album/a.png'',
     content = [0x89, 0x50, 0x4E, 0x47, 0x0D, 0x0A, 0x1A, 0x0A], readable = True\<rparr>"

definition example_gif_as_jpg :: File where
  "example_gif_as_jpg = \<lparr>name = ''b.jpg'', webkitRelativePath = ''album/b.jpg'',
     content = [0x47, 0x49, 0x46, 0x38, 0x39, 0x61], readable = True\<rparr>"

definition example_dat :: File where
  "example_dat = \<lparr>name = ''c.dat'', webkitRelativePath = ''album/c.dat'',
     content = [0x00, 0x01, 0x02, 0x03], readable = True\<rparr>"

definition example_unreadable :: File where
  "example_unreadable = \<lparr>name = ''d.png'', webkitRelativePath = ''album/d.png'',
     content = [0x47, 0x49, 0x46, 0x38, 0x39, 0x61], readable = False\<rparr>"

text \<open>Two GIF files in one folder, one of them named \<open>a.png\<close>.\<close>

definition example_gif_as_png :: File where
  "example_gif_as_png = \<lparr>name = ''a.png'', webkitRelativePath = ''album/a.png'',
     content = [0x47, 0x49, 0x46, 0x38, 0x39, 0x61], readable = True\<rparr>"

definition example_gif :: File where
  "example_gif = \<lparr>name = ''a.gif'', webkitRelativePath = ''album/a.gif'',
     content = [0x47, 0x49, 0x46, 0x38, 0x37, 0x61], readable = True\<rparr>"

definition example_app :: App where
  "example_app = \<lparr>state = IDLE,
     stats = \<lparr>total = 0, fixed = 0, processed = 0, startTime = 0\<rparr>,
     currentFile = [], logs = [], zipBlob = None, errorMsg = []\<rparr>"

section \<open>Splitting, joining and the last separator\<close>

lemma split_str_nonempty: "split_str c s \<noteq> []"
  by (induction s) (auto split: list.splits)

lemma split_str_no_sep: "c \<notin> set s \<Longrightarrow> split_str c s = [s]"
  by (induction s) auto

lemma split_str_append: "split_str c (a @ c # b) = split_str c a @ split_str c b"
  by (induction a) (auto split: list.splits simp: split_str_nonempty)

lemma join_str_Cons: "ps \<noteq> [] \<Longrightarrow> join_str c (p # ps) = p @ c # join_str c ps"
  by (cases ps) auto

lemma join_str_push: "join_str c ((a # p) # ps) = a # join_str c (p # ps)"
  by (cases ps) auto

lemma join_split: "join_str c (split_str c s) = s"
  by (induction s) (auto split: list.splits simp: join_str_Cons join_str_push split_str_nonempty)

lemma join_str_snoc: "xs \<noteq> [] \<Longrightarrow> join_str c (xs @ [n]) = join_str c xs @ c # n"
  by (induction c xs rule: join_str.induct) auto

lemma length_split_str_one: "(length (split_str c s) = Suc 0) = (c \<notin> set s)"
  by (induction s) (auto split: list.splits simp: split_str_nonempty)

lemma after_last_Cons:
  "after_last c (x # xs) =
     (if c \<in> set xs then after_last c xs else if x = c then xs else x # xs)"
  by (auto simp: after_last_def takeWhile_append)

lemma upto_last_Cons:
  "upto_last c (x # xs) =
     (if c \<in> set xs then x # upto_last c xs else if x = c then [c] else [])"
  by (auto simp: upto_last_def dropWhile_append)

lemma after_last_Nil: "after_last c [] = []"
  by (simp add: after_last_def)

lemma upto_last_Nil: "upto_last c [] = []"
  by (simp add: upto_last_def)

lemma upto_after_last: "upto_last c s @ after_last c s = s"
  by (induction s) (auto simp: after_last_Cons upto_last_Cons after_last_Nil upto_last_Nil)

lemma after_last_no_sep: "c \<notin> set (after_last c s)"
  by (induction s) (auto simp: after_last_Cons after_last_Nil)

lemma upto_last_empty: "(upto_last c s = []) = (c \<notin> set s)"
  by (induction s) (auto simp: upto_last_Cons upto_last_Nil)

lemma upto_last_ends: "c \<in> set s \<Longrightarrow> last (upto_last c s) = c"
  by (induction s) (auto simp: upto_last_Cons upto_last_Nil upto_last_empty)

lemma last_split_str: "last (split_str c s) = after_last c s"
proof (induction s)
  case Nil
  show ?case by (simp add: after_last_Nil)
next
  case (Cons x xs)
  show ?case
  proof (cases "c \<in> set xs")
    case True
    then have "length (split_str c xs) \<noteq> 1"
      by (simp add: length_split_str_one)
    then obtain p q ps where "split_str c xs = p # q # ps"
      by (cases "split_str c xs"; cases "tl (split_str c xs)") (auto simp: split_str_nonempty)
    with Cons True show ?thesis
      by (auto simp: after_last_Cons)
  next
    case False
    then show ?thesis
      by (auto simp: after_last_Cons split_str_no_sep)
  qed
qed


lemma replace_last_segment:
  "join_str c ((split_str c p)[length (split_str c p) - Suc 0 := m]) = upto_last c p @ m"
proof (cases "c \<in> set p")
  case False
  then show ?thesis
    using upto_last_empty [of c p] by (simp add: split_str_no_sep)
next
  case True
  define u where "u = upto_last c p"
  define n where "n = after_last c p"
  have p: "p = u @ n" and n: "c \<notin> set n"
    by (simp_all add: u_def n_def upto_after_last after_last_no_sep)
  have "u \<noteq> []" and "last u = c"
    using True by (simp_all add: u_def upto_last_empty upto_last_ends)
  then obtain a where u: "u = a @ [c]"
    by (metis append_butlast_last_id)
  have sp: "split_str c p = split_str c a @ [n]"
    using n by (simp add: p u split_str_append split_str_no_sep)
  have "(split_str c p)[length (split_str c p) - Suc 0 := m] = split_str c a @ [m]"
    by (simp add: sp)
  then show ?thesis
    by (simp add: join_str_snoc split_str_nonempty join_split u u_def [symmetric])
qed

lemma lastIndexOf_from_eq:
  "lastIndexOf_from c s i found =
     (if c \<in> set s then i + int (length (upto_last c s)) - 1 else found)"
  by (induction s arbitrary: i found) (auto simp: upto_last_Cons)

lemma lastIndexOf_eq:
  "lastIndexOf s c = (if c \<in> set s then int (length (upto_last c s)) - 1 else - 1)"
  by (simp add: lastIndexOf_def lastIndexOf_from_eq)

lemma substring0_lastIndexOf:
  "substring0 s (lastIndexOf s c) = (if c \<in> set s then butlast (upto_last c s) else [])"
proof (cases "c \<in> set s")
  case False
  then show ?thesis by (simp add: substring0_def lastIndexOf_eq)
next
  case True
  have "take (length (upto_last c s) - 1) (upto_last c s @ after_last c s) = butlast (upto_last c s)"
    by (simp add: butlast_conv_take)
  then show ?thesis
    using True by (simp add: substring0_def lastIndexOf_eq upto_after_last nat_diff_distrib')
qed

lemma nameWithoutExt_eq:
  "nameWithoutExt n = (if stem_spec n = [] then n else stem_spec n)"
  by (simp add: nameWithoutExt_def stem_spec_def substring0_lastIndexOf Let_def)

lemma stem_spec_empty_leading_dot:
  "stem_spec n = [] \<Longrightarrow> n \<noteq> [] \<Longrightarrow> hd n = CHR ''.''"
  by (cases n) (auto simp: stem_spec_def upto_last_Cons upto_last_empty split: if_splits)

lemma nameWithoutExt_stem:
  "\<not> startsWith n ''.'' \<Longrightarrow> nameWithoutExt n = stem_spec n"
  using stem_spec_empty_leading_dot [of n]
  by (cases n) (auto simp: nameWithoutExt_eq startsWith_def)

lemma shouldSkipFile_leading_dot: "\<not> shouldSkipFile n \<Longrightarrow> \<not> startsWith n ''.''"
  by (simp add: shouldSkipFile_def)

lemma nameWithoutExt_filtered: "\<not> shouldSkipFile n \<Longrightarrow> nameWithoutExt n = stem_spec n"
  by (rule nameWithoutExt_stem) (rule shouldSkipFile_leading_dot)

lemma getExtension_eq:
  "getExtension n = (if CHR ''.'' \<in> set n then toLowerCase (after_last CHR ''.'' n) else [])"
  by (simp add: getExtension_def Let_def length_split_str_one last_split_str)

section \<open>The rename decision in closed form\<close>

lemma decide_eq:
  "decide n p d =
     (if d \<noteq> Unknown \<and> getExtension n \<noteq> mime_str d \<and> \<not> (getExtension n = ''jpeg'' \<and> d = Jpg)
      then (nameWithoutExt n @ ''.'' @ mime_str d,
            upto_last CHR ''/'' p @ nameWithoutExt n @ ''.'' @ mime_str d, Fixed)
      else (n, p, Unchanged))"
  by (auto simp: decide_def Let_def replace_last_segment)

lemma ext_spec_eq: "ext_spec p = getExtension (last_segment p)"
  by (simp add: ext_spec_def getExtension_eq Let_def)

lemma upto_last_append:
  "c \<notin> set m \<Longrightarrow> upto_last c (upto_last c p @ m) = upto_last c p"
  by (auto simp: upto_last_def dropWhile_append intro: dropWhile_eq_self_iff[THEN iffD2])

lemma after_last_append:
  "c \<notin> set m \<Longrightarrow> after_last c (upto_last c p @ m) = m"
  using upto_after_last [of c "upto_last c p @ m"] upto_last_append [of c m p]
  by simp

lemma upto_last_snoc_sep: "c \<notin> set e \<Longrightarrow> upto_last c (s @ c # e) = s @ [c]"
  by (simp add: upto_last_def dropWhile_append)

lemma stem_spec_add_ext:
  "CHR ''.'' \<notin> set e \<Longrightarrow> stem_spec (s @ ''.'' @ e) = s"
  by (simp add: stem_spec_def upto_last_snoc_sep)

lemma set_stem_spec: "set (stem_spec n) \<subseteq> set n"
proof (cases "CHR ''.'' \<in> set n")
  case True
  have "set (butlast (upto_last CHR ''.'' n)) \<subseteq> set (upto_last CHR ''.'' n)"
    by (meson in_set_butlastD subsetI)
  also have "\<dots> \<subseteq> set n"
    using upto_after_last [of "CHR ''.''" n] by (metis set_append Un_upper1)
  finally show ?thesis using True by (simp add: stem_spec_def)
next
  case False
  then show ?thesis by (simp add: stem_spec_def)
qed

lemma mime_str_no_sep: "CHR ''/'' \<notin> set (mime_str d)" "CHR ''.'' \<notin> set (mime_str d)"
  by (cases d; simp)+

lemma split_str_replace_last:
  "c \<notin> set m \<Longrightarrow> split_str c (upto_last c p @ m) = butlast (split_str c p) @ [m]"
proof (cases "c \<in> set p")
  case False
  assume "c \<notin> set m"
  with False show ?thesis
    using upto_last_empty [of c p] by (simp add: split_str_no_sep)
next
  case True
  assume m: "c \<notin> set m"
  define u where "u = upto_last c p"
  define n where "n = after_last c p"
  have p: "p = u @ n" and n: "c \<notin> set n"
    by (simp_all add: u_def n_def upto_after_last after_last_no_sep)
  have "u \<noteq> []" and "last u = c"
    using True by (simp_all add: u_def upto_last_empty upto_last_ends)
  then obtain a where u: "u = a @ [c]"
    by (metis append_butlast_last_id)
  have "split_str c p = split_str c a @ [n]"
    using n by (simp add: p u split_str_append split_str_no_sep)
  moreover have "split_str c (u @ m) = split_str c a @ [m]"
    using m by (simp add: u split_str_append split_str_no_sep)
  ultimately show ?thesis by (simp add: u_def)
qed

lemma finalPath_of_eq:
  "finalPath_of f = fst (snd (decide (name f) (relativePath f) (detectMimeType f)))"
  by (simp add: finalPath_of_def)

lemma strip_ext_finalPath:
  assumes "name f = last_segment (relativePath f)" and "\<not> startsWith (name f) ''.''"
  shows "strip_ext (finalPath_of f) = strip_ext (relativePath f)"
proof (cases "snd (snd (decide (name f) (relativePath f) (detectMimeType f))) = Fixed")
  case False
  then show ?thesis
    by (auto simp: finalPath_of_def decide_eq split: if_splits)
next
  case True
  define n where "n = name f"
  define p where "p = relativePath f"
  define e where "e = mime_str (detectMimeType f)"
  define m where "m = stem_spec n @ ''.'' @ e"
  have fin: "finalPath_of f = dir_prefix p @ m"
    using True assms(2)
    by (auto simp: finalPath_of_def decide_eq nameWithoutExt_stem dir_prefix_def n_def p_def
        e_def m_def split: if_splits)
  have "CHR ''/'' \<notin> set n"
    using assms(1) by (simp add: n_def last_segment_def after_last_no_sep)
  then have m: "CHR ''/'' \<notin> set m"
    using set_stem_spec [of n] mime_str_no_sep(1) [of "detectMimeType f"]
    by (auto simp: m_def e_def)
  have d: "dir_prefix (dir_prefix p @ m) = dir_prefix p"
    using m by (simp add: dir_prefix_def upto_last_append)
  have l: "last_segment (dir_prefix p @ m) = m"
    using m by (simp add: dir_prefix_def last_segment_def after_last_append)
  have s: "stem_spec m = stem_spec n"
    unfolding m_def e_def by (rule stem_spec_add_ext) (rule mime_str_no_sep(2))
  have "strip_ext (dir_prefix p @ m) = dir_prefix p @ stem_spec n"
    by (simp add: strip_ext_def d l s)
  moreover have "strip_ext p = dir_prefix p @ stem_spec n"
    using assms(1) by (simp add: strip_ext_def n_def p_def)
  ultimately show ?thesis
    unfolding fin by (simp add: p_def)
qed

lemma distinct_map_comp: "distinct (map (h \<circ> k) xs) \<Longrightarrow> distinct (map k xs)"
  by (induction xs) auto

lemma detectMimeType_unreadable: "\<not> readable f \<Longrightarrow> detectMimeType f = Unknown"
  by (simp add: detectMimeType_def readAsArrayBuffer_def)

lemma decide_Unknown: "decide n p Unknown = (n, p, Unchanged)"
  by (simp add: decide_def Let_def)

section \<open>The loop, iteration by iteration\<close>

lemma processFile_processedFiles:
  "processedFiles (processFile files i r) = processedFiles r @ [outcome_of (files ! i)]"
  by (simp add: processFile_def outcome_of_def Let_def split: prod.splits)

lemma processFile_zipFiles:
  "zipFiles (processFile files i r) = zipFiles r @ [(finalPath_of (files ! i), files ! i)]"
  by (simp add: processFile_def finalPath_of_def Let_def split: prod.splits)

lemma processFile_fixedCount:
  "fixedCount (processFile files i r) =
     fixedCount r + (if status (outcome_of (files ! i)) = Fixed then 1 else 0)"
  by (simp add: processFile_def outcome_of_def Let_def split: prod.splits)

lemma processFile_stats:
  "stats (processFile files i r) =
     (stats r)\<lparr>processed := i + 1, fixed := fixedCount (processFile files i r)\<rparr>"
  by (simp add: processFile_def outcome_of_def Let_def split: prod.splits)

lemma processFile_logs:
  "logs (processFile files i r) = take 500 (outcome_of (files ! i) # logs r)"
  by (simp add: processFile_def outcome_of_def Let_def split: prod.splits)

lemma processFile_state:
  "state (processFile files i r) = state r"
  "zipBlob (processFile files i r) = zipBlob r"
  "errorMsg (processFile files i r) = errorMsg r"
  by (simp_all add: processFile_def Let_def split: prod.splits)

lemma loop_done: "length files \<le> i \<Longrightarrow> loop files i r = r"
  by (subst loop.simps) simp

lemma loop_step:
  "i < length files \<Longrightarrow> loop files i r = loop files (Suc i) (processFile files i r)"
  by (subst loop.simps) simp

lemma loop_after_steps:
  "i \<le> length files \<Longrightarrow> loop files i (after_steps files i r) = after_steps files (length files) r"
proof (induction "length files - i" arbitrary: i)
  case 0
  then have "i = length files" by simp
  then show ?case by (simp add: loop_done)
next
  case (Suc d)
  then have lt: "i < length files" and d: "d = length files - Suc i" by simp_all
  have "loop files i (after_steps files i r) = loop files (Suc i) (after_steps files (Suc i) r)"
    using lt by (simp add: loop_step)
  also have "\<dots> = after_steps files (length files) r"
    using Suc.hyps(1) [OF d] lt by simp
  finally show ?case .
qed

lemma loop_eq_after_steps: "loop files 0 r = after_steps files (length files) r"
  using loop_after_steps [of 0 files r] by simp

lemma after_steps_processedFiles:
  "k \<le> length files \<Longrightarrow>
     processedFiles (after_steps files k r) = processedFiles r @ map outcome_of (take k files)"
  by (induction k) (simp_all add: processFile_processedFiles take_Suc_conv_app_nth)

lemma after_steps_zipFiles:
  "k \<le> length files \<Longrightarrow>
     zipFiles (after_steps files k r) =
       zipFiles r @ map (\<lambda>f. (finalPath_of f, f)) (take k files)"
  by (induction k) (simp_all add: processFile_zipFiles take_Suc_conv_app_nth)

lemma after_steps_fixedCount:
  "k \<le> length files \<Longrightarrow>
     fixedCount (after_steps files k r) =
       fixedCount r + length (filter (\<lambda>f. status (outcome_of f) = Fixed) (take k files))"
  by (induction k) (simp_all add: processFile_fixedCount take_Suc_conv_app_nth)

lemma after_steps_stats:
  "k \<le> length files \<Longrightarrow>
     stats (after_steps files k r) =
       (if k = 0 then stats r
        else (stats r)\<lparr>processed := k, fixed := fixedCount (after_steps files k r)\<rparr>)"
  by (induction k) (simp_all add: processFile_stats)

lemma loop_processedFiles:
  "processedFiles (loop files 0 (initRun now app files)) = map outcome_of files"
  by (simp add: loop_eq_after_steps after_steps_processedFiles initRun_def)

lemma loop_zipFiles:
  "zipFiles (loop files 0 (initRun now app files)) = map (\<lambda>f. (finalPath_of f, f)) files"
  by (simp add: loop_eq_after_steps after_steps_zipFiles initRun_def)

lemma startProcessing_processedFiles:
  "processedFiles (startProcessing g now app files) = map outcome_of files"
  using loop_processedFiles [of files now app]
  by (simp add: startProcessing_def Let_def split: option.splits)

lemma startProcessing_zipFiles:
  "zipFiles (startProcessing g now app files) = map (\<lambda>f. (finalPath_of f, f)) files"
  using loop_zipFiles [of files now app]
  by (simp add: startProcessing_def Let_def split: option.splits)

lemma decide_status: "snd (snd (decide n p d)) = Fixed \<or> snd (snd (decide n p d)) = Unchanged"
  by (simp add: decide_def Let_def)

lemma outcome_of_fields:
  "originalName (outcome_of f) = name f"
  "newName (outcome_of f) = fst (decide (name f) (relativePath f) (detectMimeType f))"
  "originalPath (outcome_of f) = relativePath f"
  "detectedType (outcome_of f) = detectMimeType f"
  "status (outcome_of f) = snd (snd (decide (name f) (relativePath f) (detectMimeType f)))"
  "blob (outcome_of f) = f"
  by (simp_all add: outcome_of_def Let_def)

lemma outcome_of_status: "status (outcome_of f) = Fixed \<or> status (outcome_of f) = Unchanged"
  using decide_status [of "name f" "relativePath f" "detectMimeType f"]
  by (simp add: outcome_of_def Let_def)

lemma startProcessing_state:
  "state (startProcessing g now app files) =
     (case g (map (\<lambda>f. (finalPath_of f, f)) files) of None \<Rightarrow> ERROR | Some b \<Rightarrow> COMPLETED)"
  using loop_zipFiles [of files now app]
  by (simp add: startProcessing_def Let_def split: option.splits)

lemma after_steps_total:
  "total (stats (after_steps files k r)) = total (stats r)"
  by (induction k) (simp_all add: processFile_stats)

lemma after_steps_processed:
  "processed (stats (after_steps files k (initRun now app files))) = k"
  by (cases k) (simp_all add: processFile_stats initRun_def)

lemma after_steps_fixed:
  "fixed (stats (after_steps files k (initRun now app files)))
     = fixedCount (after_steps files k (initRun now app files))"
  by (cases k) (simp_all add: processFile_stats initRun_def)

lemma count_fixed_le: "length (filter P (take k xs)) \<le> k"
  by (metis length_filter_le length_take min.cobounded2 order_trans)

lemma count_fixed_mono:
  "j \<le> k \<Longrightarrow> length (filter P (take j xs)) \<le> length (filter P (take k xs))"
proof -
  assume "j \<le> k"
  then have "take k xs = take j xs @ take (k - j) (drop j xs)"
    by (metis le_add_diff_inverse take_add)
  then show ?thesis by simp
qed

lemma startProcessing_stats:
  "stats (startProcessing g now app files)
     = stats (after_steps files (length files) (initRun now app files))"
  by (simp add: startProcessing_def Let_def loop_eq_after_steps split: option.splits)

lemma progress_processedFiles:
  "k \<le> length files \<Longrightarrow> processedFiles (progress now app files k) = map outcome_of (take k files)"
  by (simp add: progress_def after_steps_processedFiles initRun_def)

lemma progress_fixed:
  assumes "k \<le> length files"
  shows "fixed (stats (progress now app files k))
       = length (filter (\<lambda>f. status (outcome_of f) = Fixed) (take k files))"
proof -
  have "fixed (stats (progress now app files k))
      = fixedCount (after_steps files k (initRun now app files))"
    by (simp add: progress_def after_steps_fixed)
  also have "\<dots> = fixedCount (initRun now app files)
      + length (filter (\<lambda>f. status (outcome_of f) = Fixed) (take k files))"
    using assms by (rule after_steps_fixedCount)
  finally show ?thesis by (simp add: initRun_def)
qed

lemma progress_processed: "processed (stats (progress now app files k)) = k"
  by (simp add: progress_def after_steps_processed)

lemma progress_total: "total (stats (progress now app files k)) = length files"
  by (simp add: progress_def after_steps_total initRun_def)

section \<open>The files a run receives\<close>

text \<open>A browser file's relative path is empty or ends with a separator and the file's
  name, and the name holds no separator; then the name is the last segment.\<close>

lemma after_last_sep_append: "c \<notin> set n \<Longrightarrow> after_last c (d @ c # n) = n"
  by (simp add: after_last_def takeWhile_append)

lemma browser_file_last_segment:
  assumes "CHR ''/'' \<notin> set (name f)"
    and "webkitRelativePath f = [] \<or> (\<exists>d. webkitRelativePath f = d @ ''/'' @ name f)"
  shows "name f = last_segment (relativePath f)"
proof (cases "webkitRelativePath f = []")
  case True
  then have "relativePath f = name f"
    by (simp add: relativePath_def)
  moreover have "after_last CHR ''/'' (name f) = name f"
    using assms(1) upto_last_empty [of "CHR ''/''" "name f"] upto_after_last [of "CHR ''/''" "name f"]
    by simp
  ultimately show ?thesis
    by (simp add: last_segment_def)
next
  case False
  with assms(2) obtain d where "webkitRelativePath f = d @ ''/'' @ name f"
    by blast
  with False assms(1) show ?thesis
    by (simp add: relativePath_def last_segment_def after_last_sep_append)
qed

text \<open>Every file a run is started on through the folder picker has passed the filter:
  its name does not begin with a dot.\<close>

lemma handleFolderSelect_run:
  assumes "handleFolderSelect g now app files = Inr r"
  shows "r = startProcessing g now app (filter (\<lambda>f. \<not> shouldSkipFile (name f)) files)
    \<and> (\<forall>f \<in> set (filter (\<lambda>f. \<not> shouldSkipFile (name f)) files). \<not> startsWith (name f) ''.'')"
  using assms
  by (auto simp: handleFolderSelect_def shouldSkipFile_def Let_def split: if_splits)

section \<open>Evaluating the sample batch\<close>

lemmas detect_eval = detect_def header_of_def toHexUpper_def hexDigit_def startsWith_def

lemmas decide_eval = decide_def getExtension_def toLowerCase_def toLowerChar_def
  nameWithoutExt_def substring0_def lastIndexOf_def Let_def

lemma detect_example_png: "detectMimeType example_png = Png"
  by (simp add: detectMimeType_def readAsArrayBuffer_def example_png_def detect_eval)

lemma detect_example_gif_as_jpg: "detectMimeType example_gif_as_jpg = Gif"
  by (simp add: detectMimeType_def readAsArrayBuffer_def example_gif_as_jpg_def detect_eval)

lemma detect_example_dat: "detectMimeType example_dat = Unknown"
  by (simp add: detectMimeType_def readAsArrayBuffer_def example_dat_def detect_eval)

lemma outcome_example_png:
  "outcome_of example_png =
     \<lparr>originalName = ''a.png'', newName = ''a.png'', originalPath = ''album/a.png'',
      detectedType = Png, status = Unchanged, blob = example_png\<rparr>"
  unfolding outcome_of_def detect_example_png
  by (simp add: example_png_def relativePath_def decide_eval)

lemma outcome_example_gif_as_jpg:
  "outcome_of example_gif_as_jpg =
     \<lparr>originalName = ''b.jpg'', newName = ''b.gif'', originalPath = ''album/b.jpg'',
      detectedType = Gif, status = Fixed, blob = example_gif_as_jpg\<rparr>"
  unfolding outcome_of_def detect_example_gif_as_jpg
  by (simp add: example_gif_as_jpg_def relativePath_def decide_eval)

lemma outcome_example_dat:
  "outcome_of example_dat =
     \<lparr>originalName = ''c.dat'', newName = ''c.dat'', originalPath = ''album/c.dat'',
      detectedType = Unknown, status = Unchanged, blob = example_dat\<rparr>"
  unfolding outcome_of_def detect_example_dat
  by (simp add: example_dat_def relativePath_def decide_eval)

lemmas spec_eval = last_segment_def dir_prefix_def after_last_def upto_last_def stem_spec_def
  ext_spec_def strip_ext_def toLowerCase_def toLowerChar_def startsWith_def Let_def

lemma outcome_example_unreadable:
  "outcome_of example_unreadable =
     \<lparr>originalName = ''d.png'', newName = ''d.png'', originalPath = ''album/d.png'',
      detectedType = Unknown, status = Unchanged, blob = example_unreadable\<rparr>"
  by (simp add: outcome_of_def detectMimeType_unreadable decide_Unknown example_unreadable_def
      relativePath_def)

lemma detect_example_gif_as_png: "detectMimeType example_gif_as_png = Gif"
  by (simp add: detectMimeType_def readAsArrayBuffer_def example_gif_as_png_def detect_eval)

lemma detect_example_gif: "detectMimeType example_gif = Gif"
  by (simp add: detectMimeType_def readAsArrayBuffer_def example_gif_def detect_eval)

lemma finalPath_example_gif_as_png: "finalPath_of example_gif_as_png = ''album/a.gif''"
  unfolding finalPath_of_def detect_example_gif_as_png
  by (simp add: example_gif_as_png_def relativePath_def decide_eval)

lemma finalPath_example_gif: "finalPath_of example_gif = ''album/a.gif''"
  unfolding finalPath_of_def detect_example_gif
  by (simp add: example_gif_def relativePath_def decide_eval)

section \<open>Headers of hexadecimal digits\<close>

lemma hexDigit_inj:
  assumes "m < 16" and "n < 16" and "hexDigit m = hexDigit n"
  shows "m = n"
proof -
  have "distinct ''0123456789ABCDEF''"
    by simp
  moreover have "m < length ''0123456789ABCDEF''" and "n < length ''0123456789ABCDEF''"
    using assms(1,2) by simp_all
  ultimately show ?thesis
    using assms(3) unfolding hexDigit_def by (simp only: nth_eq_iff_index_eq)
qed

lemma toHexUpper_length: "length (toHexUpper b) = 1 \<or> length (toHexUpper b) = 2"
  by (simp add: toHexUpper_def Let_def)

lemma toHexUpper_inj: "toHexUpper a = toHexUpper b \<Longrightarrow> a = b"
proof -
  assume eq: "toHexUpper a = toHexUpper b"
  have a: "unat a < 256" and b: "unat b < 256"
    using unsigned_less [of a, where ?'a = nat] unsigned_less [of b, where ?'a = nat] by simp_all
  have "unat a = unat b"
  proof (cases "unat a < 16")
    case True
    with eq have "unat b < 16" and "hexDigit (unat a) = hexDigit (unat b)"
      by (auto simp: toHexUpper_def Let_def split: if_splits)
    with True show ?thesis by (auto dest: hexDigit_inj)
  next
    case False
    with eq have "hexDigit (unat a div 16) = hexDigit (unat b div 16)"
      and "hexDigit (unat a mod 16) = hexDigit (unat b mod 16)"
      by (auto simp: toHexUpper_def Let_def split: if_splits)
    moreover have "unat a div 16 < 16" "unat b div 16 < 16" "unat a mod 16 < 16" "unat b mod 16 < 16"
      using a b by simp_all
    ultimately have "unat a div 16 = unat b div 16" "unat a mod 16 = unat b mod 16"
      by (blast intro: hexDigit_inj)+
    then show ?thesis
      by (metis div_mult_mod_eq)
  qed
  then show ?thesis by (simp add: word_unat_eq_iff)
qed

lemma hex_concat_length:
  "length (concat (map toHexUpper bs)) \<le> 2 * length bs"
proof (induction bs)
  case Nil
  show ?case by simp
next
  case (Cons b bs)
  then show ?case using toHexUpper_length [of b] by auto
qed

lemma hex_concat_full:
  "length (concat (map toHexUpper bs)) = 2 * length bs \<Longrightarrow> \<forall>b \<in> set bs. length (toHexUpper b) = 2"
proof (induction bs)
  case Nil
  show ?case by simp
next
  case (Cons b bs)
  then show ?case
    using toHexUpper_length [of b] hex_concat_length [of bs] by auto
qed

lemma hex_concat_inj:
  "\<forall>b \<in> set xs. length (toHexUpper b) = 2 \<Longrightarrow> \<forall>b \<in> set ys. length (toHexUpper b) = 2 \<Longrightarrow>
   concat (map toHexUpper xs) = concat (map toHexUpper ys) \<Longrightarrow> xs = ys"
proof (induction xs arbitrary: ys)
  case Nil
  show ?case
  proof (cases ys)
    case (Cons y ys')
    with Nil.prems(2) have "length (toHexUpper y) = 2" by simp
    with Nil.prems(3) Cons show ?thesis by auto
  qed simp
next
  case (Cons x xs)
  have lx: "length (toHexUpper x) = 2"
    using Cons.prems(1) by simp
  show ?case
  proof (cases ys)
    case Nil
    with Cons.prems(3) lx show ?thesis by auto
  next
    case ys: (Cons y ys')
    have ly: "length (toHexUpper y) = 2"
      using Cons.prems(2) ys by simp
    have "toHexUpper x @ concat (map toHexUpper xs) = toHexUpper y @ concat (map toHexUpper ys')"
      using Cons.prems(3) ys by simp
    then have h: "toHexUpper x = toHexUpper y"
      and t: "concat (map toHexUpper xs) = concat (map toHexUpper ys')"
      using lx ly by simp_all
    have "x = y"
      using h by (rule toHexUpper_inj)
    moreover have "xs = ys'"
      using Cons.prems(1,2) ys t by (intro Cons.IH) simp_all
    ultimately show ?thesis
      using ys by simp
  qed
qed

text \<open>A header of eight digits from at most four bytes determines the bytes.\<close>

lemma hex_eight_digits:
  assumes "length xs \<le> 4" and "length ys = 4" and "\<forall>b \<in> set ys. length (toHexUpper b) = 2"
    and "concat (map toHexUpper xs) = concat (map toHexUpper ys)"
  shows "xs = ys"
proof -
  have "length (concat (map toHexUpper ys)) = 8"
    using assms(2,3) by (simp add: length_concat sum_list_triv comp_def cong: map_cong)
  then have l: "length (concat (map toHexUpper xs)) = 8"
    using assms(4) by simp
  with hex_concat_length [of xs] assms(1) have "length xs = 4"
    by simp
  with l have "\<forall>b \<in> set xs. length (toHexUpper b) = 2"
    by (intro hex_concat_full) simp
  then show ?thesis
    using assms(3,4) by (rule hex_concat_inj)
qed


lemma hex_eq_signature:
  assumes "length xs \<le> 4" and "length ys = 4" and "\<forall>b \<in> set ys. length (toHexUpper b) = 2"
  shows "(concat (map toHexUpper xs) = concat (map toHexUpper ys)) = (xs = ys)"
  using hex_eight_digits [OF assms] by auto

lemma header_eq_signature:
  assumes "length ys = 4" and "\<forall>b \<in> set ys. length (toHexUpper b) = 2"
  shows "startsWith (header_of bs) (concat (map toHexUpper ys)) = (take 4 bs = ys)"
proof -
  have "length (concat (map toHexUpper ys)) = 8"
    using assms by (simp add: length_concat sum_list_triv comp_def cong: map_cong)
  moreover have "length (header_of bs) \<le> 8"
    using hex_concat_length [of "take 4 bs"] by (simp add: header_of_def)
  ultimately have "startsWith (header_of bs) (concat (map toHexUpper ys))
      = (header_of bs = concat (map toHexUpper ys))"
    by (simp add: startsWith_def)
  also have "\<dots> = (take 4 bs = ys)"
    unfolding header_of_def using assms by (intro hex_eq_signature) simp_all
  finally show ?thesis .
qed

lemma png_header: "startsWith (header_of bs) ''89504E47'' = (take 4 bs = [0x89, 0x50, 0x4E, 0x47])"
  using header_eq_signature [of "[0x89, 0x50, 0x4E, 0x47]" bs]
  by (simp add: toHexUpper_def hexDigit_def)

lemma gif_header: "startsWith (header_of bs) ''47494638'' = (take 4 bs = [0x47, 0x49, 0x46, 0x38])"
  using header_eq_signature [of "[0x47, 0x49, 0x46, 0x38]" bs]
  by (simp add: toHexUpper_def hexDigit_def)

lemma riff_hex:
  "(concat (map toHexUpper (take 4 bs)) = ''52494646'') = (take 4 bs = [0x52, 0x49, 0x46, 0x46])"
  using hex_eq_signature [of "take 4 bs" "[0x52, 0x49, 0x46, 0x46]"]
  by (simp add: toHexUpper_def hexDigit_def)

lemma webp_hex:
  "(concat (map toHexUpper (take 4 (drop 8 bs))) = ''57454250'')
     = (take 4 (drop 8 bs) = [0x57, 0x45, 0x42, 0x50])"
  using hex_eq_signature [of "take 4 (drop 8 bs)" "[0x57, 0x45, 0x42, 0x50]"]
  by (simp add: toHexUpper_def hexDigit_def)

lemma jpg_header:
  assumes "take 3 bs = [0xFF, 0xD8, 0xFF]"
  shows "startsWith (header_of bs) ''FFD8FF''"
proof -
  have "bs = [0xFF, 0xD8, 0xFF] @ drop 3 bs"
    using append_take_drop_id [of 3 bs] assms by simp
  then obtain rest where "bs = 0xFF # 0xD8 # 0xFF # rest"
    by simp
  then show ?thesis
    by (simp add: header_of_def startsWith_def toHexUpper_def hexDigit_def)
qed

text \<open>Outside the JPEG test the detector and the byte-wise rules agree: the only
  difference is a prefix the source calls JPEG and the rules call UNKNOWN.\<close>

lemma detect_agrees_up_to_jpg:
  "detect bs = detect_spec bs \<or> (detect bs = Jpg \<and> detect_spec bs = Unknown)"
proof -
  have g: "take 4 bs = [0x47, 0x49, 0x46, 0x38] \<Longrightarrow> \<not> startsWith (header_of bs) ''FFD8FF''"
  proof -
    assume "take 4 bs = [0x47, 0x49, 0x46, 0x38]"
    then show ?thesis
      by (simp add: header_of_def startsWith_def toHexUpper_def hexDigit_def)
  qed
  have r: "take 4 bs = [0x52, 0x49, 0x46, 0x46] \<Longrightarrow> \<not> startsWith (header_of bs) ''FFD8FF''"
  proof -
    assume "take 4 bs = [0x52, 0x49, 0x46, 0x46]"
    then show ?thesis
      by (simp add: header_of_def startsWith_def toHexUpper_def hexDigit_def)
  qed
  show ?thesis
    unfolding detect_def detect_spec_def Let_def png_header gif_header riff_hex webp_hex
    using jpg_header [of bs] g r by auto
qed

section \<open>Signature detection\<close>

text \<open>
  C1. The claim: the detector returns exactly what the byte-wise rules give, and no
  prefix whose first three bytes differ from FF D8 FF is classified as JPEG. The source
  builds its header from hexadecimal digits without padding, so the bytes
  FF D8 0F F0 give the header \<open>FFD8FF0\<close>: their first three bytes are not FF D8 FF, the
  byte-wise rules answer UNKNOWN, and the source answers JPEG.
\<close>

theorem detect_unpadded_hex_jpg:
  "take 3 [0xFF, 0xD8, 0x0F, 0xF0 :: byte] \<noteq> [0xFF, 0xD8, 0xFF]
   \<and> detect_spec [0xFF, 0xD8, 0x0F, 0xF0] = Unknown
   \<and> detect [0xFF, 0xD8, 0x0F, 0xF0] = Jpg"
  by (simp add: detect_spec_def detect_eval)

text \<open>
  C5. The claim: a prefix shorter than 12 bytes that matches none of the PNG, JPEG and
  GIF signatures is classified UNKNOWN. The four bytes 0F 0F D8 FF match none of the
  three signatures, and the source classifies them as JPEG: without padding their
  header is \<open>FFD8FF\<close>.
\<close>

theorem detect_short_prefix_jpg:
  "length [0x0F, 0x0F, 0xD8, 0xFF :: byte] < 12
   \<and> take 4 [0x0F, 0x0F, 0xD8, 0xFF :: byte] \<noteq> [0x89, 0x50, 0x4E, 0x47]
   \<and> take 3 [0x0F, 0x0F, 0xD8, 0xFF :: byte] \<noteq> [0xFF, 0xD8, 0xFF]
   \<and> take 4 [0x0F, 0x0F, 0xD8, 0xFF :: byte] \<noteq> [0x47, 0x49, 0x46, 0x38]
   \<and> detect [0x0F, 0x0F, 0xD8, 0xFF] = Jpg"
  by (simp add: detect_eval)

section \<open>The path policy\<close>

text \<open>
  C3. For every path a run receives and every detected format other than UNKNOWN whose
  extension does not match the current one (with the jpeg/jpg synonym), the decision
  is FIXED and the final path is the directory prefix followed by the part of the last
  segment before its last dot (the whole segment if it has no dot), a dot and the
  format's extension: the directory segments are kept verbatim and in order, and only
  the last segment is replaced. The paths a run receives are those whose file name does
  not begin with a dot: \<open>handleFolderSelect\<close> removes the others with \<open>shouldSkipFile\<close>
  before its call of \<open>startProcessing\<close>, the only one.
\<close>

theorem decide_fixed_path:
  assumes "fileName = last_segment path"
    and "d \<noteq> Unknown"
    and "ext_spec path \<noteq> mime_str d"
    and "\<not> (ext_spec path = ''jpeg'' \<and> d = Jpg)"
    and "\<not> startsWith fileName ''.''"
  shows "snd (snd (decide fileName path d)) = Fixed
    \<and> fst (decide fileName path d) = stem_spec (last_segment path) @ ''.'' @ mime_str d
    \<and> fst (snd (decide fileName path d))
        = dir_prefix path @ stem_spec (last_segment path) @ ''.'' @ mime_str d
    \<and> split_str CHR ''/'' (fst (snd (decide fileName path d)))
        = butlast (split_str CHR ''/'' path) @ [stem_spec (last_segment path) @ ''.'' @ mime_str d]"
proof -
  have dec: "decide fileName path d =
      (stem_spec fileName @ ''.'' @ mime_str d,
       dir_prefix path @ stem_spec fileName @ ''.'' @ mime_str d, Fixed)"
    using assms by (simp add: decide_eq ext_spec_eq nameWithoutExt_stem dir_prefix_def)
  have "CHR ''/'' \<notin> set fileName"
    using assms(1) by (simp add: last_segment_def after_last_no_sep)
  then have "CHR ''/'' \<notin> set (stem_spec fileName @ ''.'' @ mime_str d)"
    using set_stem_spec [of fileName] mime_str_no_sep(1) [of d] by auto
  then have "split_str CHR ''/'' (dir_prefix path @ stem_spec fileName @ ''.'' @ mime_str d)
      = butlast (split_str CHR ''/'' path) @ [stem_spec fileName @ ''.'' @ mime_str d]"
    unfolding dir_prefix_def by (rule split_str_replace_last)
  with dec assms(1) show ?thesis by simp
qed

theorem decide_fixed_path_witness:
  "fst (snd (decide ''pic.png'' ''album/sub/pic.png'' Gif)) = ''album/sub/pic.gif''
   \<and> snd (snd (decide ''pic.png'' ''album/sub/pic.png'' Gif)) = Fixed
   \<and> fst (snd (decide ''IMG_001'' ''IMG_001'' Png)) = ''IMG_001.png''
   \<and> snd (snd (decide ''IMG_001'' ''IMG_001'' Png)) = Fixed"
proof -
  have a: "''pic.png'' = last_segment ''album/sub/pic.png''"
    and b: "ext_spec ''album/sub/pic.png'' \<noteq> mime_str Gif"
    and c: "\<not> (ext_spec ''album/sub/pic.png'' = ''jpeg'' \<and> Gif = Jpg)"
    and d: "\<not> startsWith ''pic.png'' ''.''"
    by (simp_all add: spec_eval)
  have a': "''IMG_001'' = last_segment ''IMG_001''"
    and b': "ext_spec ''IMG_001'' \<noteq> mime_str Png"
    and c': "\<not> (ext_spec ''IMG_001'' = ''jpeg'' \<and> Png = Jpg)"
    and d': "\<not> startsWith ''IMG_001'' ''.''"
    by (simp_all add: spec_eval)
  have e: "dir_prefix ''album/sub/pic.png'' @ stem_spec (last_segment ''album/sub/pic.png'') @ ''.'' @ mime_str Gif
      = ''album/sub/pic.gif''"
    by (simp add: spec_eval)
  have e': "dir_prefix ''IMG_001'' @ stem_spec (last_segment ''IMG_001'') @ ''.'' @ mime_str Png
      = ''IMG_001.png''"
    by (simp add: spec_eval)
  show ?thesis
    using decide_fixed_path [OF a _ b c d] decide_fixed_path [OF a' _ b' c' d'] e e'
    by simp
qed

text \<open>
  C4. The decision is UNCHANGED with the final path equal to the original path exactly
  when the detected format is UNKNOWN, or the current extension (lower-cased, after the
  last dot of the last segment, empty without a dot) equals the format's extension, or
  the current extension is \<open>jpeg\<close> and the format is JPEG. The witness is
  \<open>photo.jpeg\<close> with JPEG content.
\<close>

theorem decide_unchanged_iff:
  assumes "fileName = last_segment path"
  shows "(snd (snd (decide fileName path d)) = Unchanged \<and> fst (snd (decide fileName path d)) = path)
         = (d = Unknown \<or> ext_spec path = mime_str d \<or> (ext_spec path = ''jpeg'' \<and> d = Jpg))"
  using assms by (auto simp: decide_eq ext_spec_eq)

theorem decide_unchanged_iff_witness:
  "''photo.jpeg'' = last_segment ''album/photo.jpeg''
   \<and> ext_spec ''album/photo.jpeg'' = ''jpeg''
   \<and> snd (snd (decide ''photo.jpeg'' ''album/photo.jpeg'' Jpg)) = Unchanged
   \<and> fst (snd (decide ''photo.jpeg'' ''album/photo.jpeg'' Jpg)) = ''album/photo.jpeg''"
proof -
  have seg: "''photo.jpeg'' = last_segment ''album/photo.jpeg''"
    by (simp add: spec_eval)
  have ext: "ext_spec ''album/photo.jpeg'' = ''jpeg''"
    by (simp add: spec_eval)
  show ?thesis
    using decide_unchanged_iff [OF seg, of Jpg] seg ext by simp
qed

text \<open>
  C2, as the source has it. The claim: pairwise distinct relative paths give pairwise
  distinct final paths. The source has no collision check, and a rename changes the
  extension of the last segment only; so the final paths are pairwise distinct when the
  relative paths are pairwise distinct even without the extension of their last segment,
  for files whose names do not begin with a dot.
\<close>

theorem final_paths_distinct:
  assumes "\<forall>f \<in> set files. name f = last_segment (relativePath f) \<and> \<not> startsWith (name f) ''.''"
    and "distinct (map (strip_ext \<circ> relativePath) files)"
  shows "distinct (map fst (zipFiles (startProcessing g now app files)))"
proof -
  have eq: "map (strip_ext \<circ> finalPath_of) files = map (strip_ext \<circ> relativePath) files"
    using assms(1) by (auto simp: strip_ext_finalPath)
  have "distinct (map (strip_ext \<circ> finalPath_of) files)"
    unfolding eq by (rule assms(2))
  then have "distinct (map finalPath_of files)"
    by (rule distinct_map_comp)
  then show ?thesis
    by (simp add: startProcessing_zipFiles comp_def)
qed

theorem final_paths_distinct_witness:
  "distinct (map (strip_ext \<circ> relativePath) [example_png, example_gif_as_jpg, example_dat])
   \<and> distinct (map fst (zipFiles (startProcessing (\<lambda>es. None) 0 example_app
        [example_png, example_gif_as_jpg, example_dat])))"
proof -
  have h1: "\<forall>f \<in> set [example_png, example_gif_as_jpg, example_dat].
      name f = last_segment (relativePath f) \<and> \<not> startsWith (name f) ''.''"
    by (simp add: example_png_def example_gif_as_jpg_def example_dat_def relativePath_def
        spec_eval)
  have h2: "distinct (map (strip_ext \<circ> relativePath) [example_png, example_gif_as_jpg, example_dat])"
    by (simp add: example_png_def example_gif_as_jpg_def example_dat_def relativePath_def
        spec_eval)
  show ?thesis
    using final_paths_distinct [OF h1 h2, of "\<lambda>es. None" 0 example_app] h2 by simp
qed

text \<open>
  C2 as stated fails for two GIF files \<open>album/a.png\<close> and \<open>album/a.gif\<close>: their
  relative paths differ and both are archived as \<open>album/a.gif\<close>.
\<close>

theorem final_paths_collide_counterexample:
  "distinct (map relativePath [example_gif_as_png, example_gif])
   \<and> map fst (zipFiles (startProcessing (\<lambda>es. None) 0 example_app
        [example_gif_as_png, example_gif])) = [''album/a.gif'', ''album/a.gif'']
   \<and> \<not> distinct (map fst (zipFiles (startProcessing (\<lambda>es. None) 0 example_app
        [example_gif_as_png, example_gif])))"
proof -
  have "distinct (map relativePath [example_gif_as_png, example_gif])"
    by (simp add: relativePath_def example_gif_as_png_def example_gif_def)
  moreover have "map fst (zipFiles (startProcessing (\<lambda>es. None) 0 example_app
        [example_gif_as_png, example_gif])) = [''album/a.gif'', ''album/a.gif'']"
    by (simp add: startProcessing_zipFiles finalPath_example_gif_as_png finalPath_example_gif)
  ultimately show ?thesis by simp
qed

section \<open>The pipeline\<close>

text \<open>
  C8. For every input sequence the run appends exactly one outcome to
  \<open>processedFiles\<close> and exactly one (path, file) pair to the archive per input file,
  both in input order; the outcome carries the file and its relative path, and the
  archive entry carries the file itself, so its content is the file's content.
\<close>

theorem one_entry_per_file_in_order:
  "processedFiles (startProcessing g now app files) = map outcome_of files
   \<and> map blob (processedFiles (startProcessing g now app files)) = files
   \<and> map originalPath (processedFiles (startProcessing g now app files)) = map relativePath files
   \<and> zipFiles (startProcessing g now app files) = map (\<lambda>f. (finalPath_of f, f)) files
   \<and> map (content \<circ> snd) (zipFiles (startProcessing g now app files)) = map content files"
  by (simp add: startProcessing_processedFiles startProcessing_zipFiles outcome_of_fields comp_def)

text \<open>
  C9. Two runs on the same input sequence produce the same outcome sequence and the
  same archive entries (paths and contents, in the same order), whatever the clock, the
  component's earlier state and the archive library's answer are in either run.
\<close>

theorem runs_agree_on_outcomes_and_entries:
  "processedFiles (startProcessing g now app files)
     = processedFiles (startProcessing g' now' app' files)
   \<and> zipFiles (startProcessing g now app files)
     = zipFiles (startProcessing g' now' app' files)"
  by (simp add: startProcessing_processedFiles startProcessing_zipFiles)

text \<open>
  C10. Every outcome a run records has status FIXED or UNCHANGED, and so has every
  decision of the path policy: SKIPPED is never produced.
\<close>

theorem status_never_skipped:
  "(\<forall>e \<in> set (processedFiles (startProcessing g now app files)).
      status e = Fixed \<or> status e = Unchanged)
   \<and> snd (snd (decide n p d)) \<noteq> Skipped"
  using outcome_of_status decide_status [of n p d]
  by (auto simp: startProcessing_processedFiles)

theorem status_never_skipped_witness:
  "status (processedFiles
      (startProcessing (\<lambda>es. None) 0 example_app [example_gif_as_jpg]) ! 0) = Fixed
   \<or> status (processedFiles
      (startProcessing (\<lambda>es. None) 0 example_app [example_gif_as_jpg]) ! 0) = Unchanged"
proof -
  have "processedFiles (startProcessing (\<lambda>es. None) 0 example_app [example_gif_as_jpg]) ! 0
        \<in> set (processedFiles (startProcessing (\<lambda>es. None) 0 example_app [example_gif_as_jpg]))"
    by (simp add: startProcessing_processedFiles)
  then show ?thesis
    using status_never_skipped [of "\<lambda>es. None" 0 example_app "[example_gif_as_jpg]"] by blast
qed

text \<open>
  C6. When the read of one file's prefix fails, that file's outcome records the type
  UNKNOWN and the status UNCHANGED, it is added to the archive under its original path,
  every file of the batch still gets its outcome and its archive entry, and the run
  ends in the error state only if the archive library fails.
\<close>

theorem read_failure_is_absorbed:
  assumes "i < length files" and "\<not> readable (files ! i)"
  shows "detectedType (processedFiles (startProcessing g now app files) ! i) = Unknown
    \<and> status (processedFiles (startProcessing g now app files) ! i) = Unchanged
    \<and> zipFiles (startProcessing g now app files) ! i = (relativePath (files ! i), files ! i)
    \<and> processedFiles (startProcessing g now app files) = map outcome_of files
    \<and> length (zipFiles (startProcessing g now app files)) = length files
    \<and> state (startProcessing g now app files)
        = (case g (zipFiles (startProcessing g now app files)) of
             None \<Rightarrow> ERROR | Some b \<Rightarrow> COMPLETED)"
proof -
  have u: "detectMimeType (files ! i) = Unknown"
    using assms(2) by (rule detectMimeType_unreadable)
  have "outcome_of (files ! i) =
      \<lparr>originalName = name (files ! i), newName = name (files ! i),
       originalPath = relativePath (files ! i), detectedType = Unknown,
       status = Unchanged, blob = files ! i\<rparr>"
    by (simp add: outcome_of_def u decide_Unknown)
  moreover have "finalPath_of (files ! i) = relativePath (files ! i)"
    by (simp add: finalPath_of_def u decide_Unknown)
  ultimately show ?thesis
    using assms(1)
    by (simp add: startProcessing_processedFiles startProcessing_zipFiles startProcessing_state)
qed

theorem read_failure_is_absorbed_witness:
  "detectedType (processedFiles (startProcessing (\<lambda>es. Some []) 0 example_app
       [example_png, example_unreadable, example_gif_as_jpg]) ! 1) = Unknown
   \<and> status (processedFiles (startProcessing (\<lambda>es. Some []) 0 example_app
       [example_png, example_unreadable, example_gif_as_jpg]) ! 1) = Unchanged
   \<and> zipFiles (startProcessing (\<lambda>es. Some []) 0 example_app
       [example_png, example_unreadable, example_gif_as_jpg]) ! 1
      = (''album/d.png'', example_unreadable)
   \<and> map status (processedFiles (startProcessing (\<lambda>es. Some []) 0 example_app
       [example_png, example_unreadable, example_gif_as_jpg])) = [Unchanged, Unchanged, Fixed]
   \<and> state (startProcessing (\<lambda>es. Some []) 0 example_app
       [example_png, example_unreadable, example_gif_as_jpg]) = COMPLETED"
proof -
  have i: "1 < length [example_png, example_unreadable, example_gif_as_jpg]"
    by simp
  have r: "\<not> readable ([example_png, example_unreadable, example_gif_as_jpg] ! 1)"
    by (simp add: example_unreadable_def)
  have p: "relativePath example_unreadable = ''album/d.png''"
    by (simp add: relativePath_def example_unreadable_def)
  show ?thesis
    using read_failure_is_absorbed [OF i r, of "\<lambda>es. Some []" 0 example_app]
    by (simp add: p outcome_example_png outcome_example_unreadable outcome_example_gif_as_jpg)
qed

text \<open>
  C7. After \<open>k\<close> files of a batch of \<open>n\<close>: total is \<open>n\<close>, processed is \<open>k\<close>, fixed is
  the number of FIXED outcomes so far, fixed \<open>\<le>\<close> processed \<open>\<le>\<close> total, no counter is below
  its value at an earlier point, and the next file adds one to processed and one to
  fixed exactly when its status is FIXED. The summary of the finished run is the one
  after \<open>n\<close> files; for the sample batch it is total 3, processed 3, fixed 1.
\<close>

theorem counters_track_progress:
  assumes "k \<le> length files"
  shows "total (stats (progress now app files k)) = length files
    \<and> processed (stats (progress now app files k)) = k
    \<and> length (processedFiles (progress now app files k)) = k
    \<and> fixed (stats (progress now app files k))
        = length (filter (\<lambda>e. status e = Fixed) (processedFiles (progress now app files k)))
    \<and> fixed (stats (progress now app files k)) \<le> processed (stats (progress now app files k))
    \<and> processed (stats (progress now app files k)) \<le> total (stats (progress now app files k))
    \<and> (\<forall>j \<le> k. total (stats (progress now app files j)) = total (stats (progress now app files k))
          \<and> processed (stats (progress now app files j))
              \<le> processed (stats (progress now app files k))
          \<and> fixed (stats (progress now app files j)) \<le> fixed (stats (progress now app files k)))
    \<and> (k < length files \<longrightarrow>
          processed (stats (progress now app files (Suc k)))
            = processed (stats (progress now app files k)) + 1
          \<and> fixed (stats (progress now app files (Suc k)))
            = fixed (stats (progress now app files k))
              + (if status (outcome_of (files ! k)) = Fixed then 1 else 0))
    \<and> stats (startProcessing g now app files) = stats (progress now app files (length files))
    \<and> processedFiles (startProcessing g now app files)
        = processedFiles (progress now app files (length files))"
proof -
  let ?P = "\<lambda>f. status (outcome_of f) = Fixed"
  have a: "length (processedFiles (progress now app files k)) = k"
    using assms by (simp add: progress_processedFiles)
  have b: "fixed (stats (progress now app files k))
      = length (filter (\<lambda>e. status e = Fixed) (processedFiles (progress now app files k)))"
    using assms by (simp add: progress_fixed progress_processedFiles filter_map comp_def)
  have c: "fixed (stats (progress now app files k)) \<le> k"
    using assms by (simp add: progress_fixed count_fixed_le)
  have d: "\<forall>j \<le> k. fixed (stats (progress now app files j)) \<le> fixed (stats (progress now app files k))"
    using assms by (simp add: progress_fixed count_fixed_mono)
  have e: "k < length files \<longrightarrow>
      fixed (stats (progress now app files (Suc k)))
        = fixed (stats (progress now app files k)) + (if ?P (files ! k) then 1 else 0)"
    by (simp add: progress_fixed take_Suc_conv_app_nth)
  have f: "stats (startProcessing g now app files) = stats (progress now app files (length files))"
    by (simp add: startProcessing_stats progress_def)
  have h: "processedFiles (startProcessing g now app files)
      = processedFiles (progress now app files (length files))"
    by (simp add: startProcessing_processedFiles progress_processedFiles)
  show ?thesis
    using assms a b c d e f h by (simp add: progress_processed progress_total)
qed

theorem counters_track_progress_witness:
  "total (stats (startProcessing (\<lambda>es. Some []) 0 example_app
       [example_png, example_gif_as_jpg, example_dat])) = 3
   \<and> processed (stats (startProcessing (\<lambda>es. Some []) 0 example_app
       [example_png, example_gif_as_jpg, example_dat])) = 3
   \<and> fixed (stats (startProcessing (\<lambda>es. Some []) 0 example_app
       [example_png, example_gif_as_jpg, example_dat])) = 1"
proof -
  let ?fs = "[example_png, example_gif_as_jpg, example_dat]"
  let ?g = "\<lambda>es :: (string \<times> File) list. Some ([] :: byte list)"
  let ?end = "progress 0 example_app ?fs (length ?fs)"
  have k: "length ?fs \<le> length ?fs"
    by simp
  note t = counters_track_progress [OF k, of 0 example_app ?g]
  have s: "stats (startProcessing ?g 0 example_app ?fs) = stats ?end"
    using t by blast
  have p: "processedFiles ?end = processedFiles (startProcessing ?g 0 example_app ?fs)"
    using t by simp
  have tot: "total (stats ?end) = length ?fs" and pr: "processed (stats ?end) = length ?fs"
    using t by blast+
  have "fixed (stats ?end) = length (filter (\<lambda>e. status e = Fixed) (processedFiles ?end))"
    using t by blast
  also have "\<dots> = 1"
    unfolding p
    by (simp add: startProcessing_processedFiles outcome_example_png
        outcome_example_gif_as_jpg outcome_example_dat)
  finally have fx: "fixed (stats ?end) = 1" .
  show ?thesis
    unfolding s tot pr fx by simp
qed

end
